theory Spec2Isabelle
  imports Complex_Main "HOL-Library.Word" "HOL-Library.Signed_Division"
begin

section \<open>Data model of the aggregator\<close>

text \<open>
  The aggregator (the second translation unit of \<^verbatim>\<open>src/unnamed/part_000\<close>) keeps
  four process-wide atomic counters, a mutex-protected queue of \<^verbatim>\<open>MessageBatch\<close> rows
  and the thread-local variables of its three loops. \<^verbatim>\<open>long long\<close> is a 64-bit
  two's-complement word: comparisons between \<^verbatim>\<open>long long\<close> values are the signed
  ones (\<open><s\<close>, read through \<open>sint\<close>), and \<open>+\<close>, \<open>-\<close> wrap around (the atomics
  wrap by definition; for the plain subtraction of two timestamps, where C++ leaves
  overflow undefined, wrap-around is what the compiled program does).
  A \<^verbatim>\<open>double\<close> is modelled by a real number: rounding is not modelled.
\<close>

type_synonym llong = "64 word"
type_synonym int32 = "32 word"

definition LLONG_MAX :: llong where
  "LLONG_MAX = 9223372036854775807"

definition LLONG_MIN :: llong where
  "LLONG_MIN = - 9223372036854775808"

text \<open>
  Modelled from the spec: the generated header \<^verbatim>\<open>market_data.pb.h\<close>, which declares
  \<^verbatim>\<open>marketdata::MarketUpdate\<close>, is not among the sources. The fields are those of the
  wire payload (ticker, price, 32-bit volume, 64-bit \<^verbatim>\<open>timestamp_ns\<close>), which are the
  accessors \<^verbatim>\<open>main\<close> calls.
\<close>

record MarketUpdate =
  ticker :: string
  price :: real
  volume :: int32
  timestamp_ns :: llong

text \<open>\<^verbatim>\<open>struct MessageBatch\<close>: the four fields of the update, then \<^verbatim>\<open>latency_ms\<close>.\<close>

record MessageBatch = MarketUpdate +
  latency_ms :: real

text \<open>The four atomics \<^verbatim>\<open>total_processed\<close>, \<^verbatim>\<open>total_latency_ns\<close>,
  \<^verbatim>\<open>min_latency_ns\<close>, \<^verbatim>\<open>max_latency_ns\<close>.\<close>

record LatencyStats =
  total_processed :: llong
  total_latency_ns :: llong
  min_latency_ns :: llong
  max_latency_ns :: llong

definition initial_stats :: LatencyStats where
  "initial_stats =
     \<lparr>total_processed = 0, total_latency_ns = 0,
      min_latency_ns = LLONG_MAX, max_latency_ns = 0\<rparr>"

text \<open>One \<^verbatim>\<open>PQexec\<close> call of the batch writer: the rows of the multi-row INSERT, in the
  order the statement lists them, and whether the result was \<^verbatim>\<open>PGRES_COMMAND_OK\<close>.\<close>

record flush_attempt =
  rows :: "MessageBatch list"
  command_ok :: bool

text \<open>The lines the threads print, with their numbers kept as numbers.\<close>

datatype log_msg =
    BatchInsertFailed
  | FlushingRemaining nat
  | TotalWritten llong
  | ConsumerError

text \<open>
  The state of the process: the globals, then the locals of \<^verbatim>\<open>main\<close>'s loop, then the
  locals of \<^verbatim>\<open>batch_writer\<close>, then what has been sent to the outside.
  The hiredis connection is represented by the calls made on it: the \<^verbatim>\<open>SET\<close> commands
  appended with \<^verbatim>\<open>redisAppendCommand\<close>, and the number of \<^verbatim>\<open>redisGetReply\<close> calls.
  Each such call asks for the acknowledgement of the oldest appended command that has
  none yet; what the call returns is not modelled (the code frees the reply when there
  is one and goes on either way).
\<close>

record state =
  stats :: LatencyStats
  batch_queue :: "MessageBatch list"
  msg_count :: llong
  redis_pipeline_count :: int
  redis_appended :: "(string \<times> real) list"
  redis_get_reply_calls :: nat
  local_batch :: "MessageBatch list"
  last_flush :: int
  total_written :: llong
  sink_log :: "flush_attempt list"
  printed :: "log_msg list"

text \<open>The state when the loops start; \<open>t0\<close> is the steady-clock reading the writer
  takes before its loop (in nanoseconds).\<close>

definition initial_state :: "int \<Rightarrow> state" where
  "initial_state t0 =
     \<lparr>stats = initial_stats, batch_queue = [], msg_count = 0,
      redis_pipeline_count = 0, redis_appended = [], redis_get_reply_calls = 0,
      local_batch = [], last_flush = t0, total_written = 0,
      sink_log = [], printed = []\<rparr>"

section \<open>Latency recorder\<close>

text \<open>
  \<^verbatim>\<open>update_latency_stats\<close> run by one thread with no other writer: the first
  \<^verbatim>\<open>compare_exchange_weak\<close> that is attempted finds the value just loaded. (The
  step-by-step version, with other callers and spurious failures in between, is
  \<open>call_step\<close> below.)
\<close>

definition update_latency_stats :: "llong \<Rightarrow> LatencyStats \<Rightarrow> LatencyStats" where
  "update_latency_stats latency_ns s =
     (let s1 = s\<lparr>total_processed := total_processed s + 1\<rparr>;
          s2 = s1\<lparr>total_latency_ns := total_latency_ns s1 + latency_ns\<rparr>;
          current_min = min_latency_ns s2;
          s3 = (if latency_ns <s current_min then s2\<lparr>min_latency_ns := latency_ns\<rparr> else s2);
          current_max = max_latency_ns s3
      in if current_max <s latency_ns then s3\<lparr>max_latency_ns := latency_ns\<rparr> else s3)"

section \<open>Stream dispatcher: the loop of main\<close>

text \<open>Lines 357-359: the end-to-end latency of a decoded update.\<close>

definition compute_latency_ns :: "llong \<Rightarrow> llong \<Rightarrow> llong" where
  "compute_latency_ns arrival_timestamp produce_timestamp =
     (let latency_ns = arrival_timestamp - produce_timestamp
      in if latency_ns <s 0 then 0 else latency_ns)"

definition to_latency_ms :: "llong \<Rightarrow> real" where
  "to_latency_ms latency_ns = real_of_int (sint latency_ns) / 1000000"

text \<open>The \<^verbatim>\<open>for\<close> loop that calls \<^verbatim>\<open>redisGetReply\<close> once per outstanding command.\<close>

function reply_loop :: "int \<Rightarrow> int \<Rightarrow> nat \<Rightarrow> nat" where
  "reply_loop i n reads = (if i < n then reply_loop (i + 1) n (Suc reads) else reads)"
  by pat_completeness auto
termination
  by (relation "measure (\<lambda>(i, n, reads). nat (n - i))") auto

definition drain_replies :: "state \<Rightarrow> state" where
  "drain_replies s =
     s\<lparr>redis_get_reply_calls := reply_loop 0 (redis_pipeline_count s) (redis_get_reply_calls s),
       redis_pipeline_count := 0\<rparr>"

text \<open>Lines 363-364: append the \<^verbatim>\<open>SET\<close> command and count it.\<close>

definition publish :: "MarketUpdate \<Rightarrow> state \<Rightarrow> state" where
  "publish u s =
     s\<lparr>redis_appended := redis_appended s @ [(ticker u, price u)],
       redis_pipeline_count := redis_pipeline_count s + 1\<rparr>"

definition make_item :: "MarketUpdate \<Rightarrow> real \<Rightarrow> MessageBatch" where
  "make_item u l =
     \<lparr>ticker = ticker u, price = price u, volume = volume u,
      timestamp_ns = timestamp_ns u, latency_ms = l\<rparr>"

text \<open>
  What \<^verbatim>\<open>rd_kafka_consumer_poll\<close> hands to one iteration: nothing within the timeout,
  an error (partition end or another), or a record, given by the clock reading taken
  when it arrives and the outcome of \<^verbatim>\<open>ParseFromArray\<close> on its payload
  (\<open>None\<close> when the bytes do not decode).
\<close>

datatype poll_result =
    IdlePoll
  | PollError bool
  | Record llong "MarketUpdate option"

text \<open>Lines 354-388, the branch taken when the payload decodes.\<close>

definition process_update :: "llong \<Rightarrow> MarketUpdate \<Rightarrow> state \<Rightarrow> state" where
  "process_update arrival_timestamp u s =
     (let latency_ns = compute_latency_ns arrival_timestamp (timestamp_ns u);
          l_ms = to_latency_ms latency_ns;
          s1 = s\<lparr>stats := update_latency_stats latency_ns (stats s)\<rparr>;
          s2 = publish u s1;
          s3 = (if redis_pipeline_count s2 \<ge> 100 then drain_replies s2 else s2)
      in s3\<lparr>batch_queue := batch_queue s3 @ [make_item u l_ms]\<rparr>)"

text \<open>One iteration of the \<^verbatim>\<open>while (run)\<close> loop of \<^verbatim>\<open>main\<close>.
  \<open>PollError is_eof\<close>: only an error other than the partition end is printed.\<close>

fun dispatch :: "poll_result \<Rightarrow> state \<Rightarrow> state" where
  "dispatch IdlePoll s =
     (if redis_pipeline_count s > 0 then drain_replies s else s)"
| "dispatch (PollError is_eof) s =
     (if is_eof then s else s\<lparr>printed := printed s @ [ConsumerError]\<rparr>)"
| "dispatch (Record arrival_timestamp payload) s =
     (let s1 = s\<lparr>msg_count := msg_count s + 1\<rparr>
      in case payload of
           Some u \<Rightarrow> process_update arrival_timestamp u s1
         | None \<Rightarrow> s1)"

section \<open>Batch writer\<close>

definition BATCH_SIZE :: nat where
  "BATCH_SIZE = 5000"

definition FLUSH_INTERVAL_MS :: int where
  "FLUSH_INTERVAL_MS = 100"

text \<open>
  Lines 184-187, run with the queue mutex held: move items from the front of the queue
  to the back of the local batch while the queue is not empty and the batch is below
  \<^verbatim>\<open>BATCH_SIZE\<close>. The result is the remaining queue and the batch.
\<close>

fun drain_queue :: "'a list \<Rightarrow> 'a list \<Rightarrow> 'a list \<times> 'a list" where
  "drain_queue [] batch = ([], batch)"
| "drain_queue (x # queue) batch =
     (if length batch < BATCH_SIZE then drain_queue queue (batch @ [x])
      else (x # queue, batch))"

text \<open>\<^verbatim>\<open>duration_cast<milliseconds>(now - last_flush).count()\<close>, on clock readings in
  nanoseconds: the cast truncates towards zero.\<close>

definition elapsed_ms :: "int \<Rightarrow> int \<Rightarrow> int" where
  "elapsed_ms now previous = (now - previous) sdiv 1000000"

definition should_flush :: "'a list \<Rightarrow> int \<Rightarrow> bool" where
  "should_flush batch elapsed \<longleftrightarrow>
     batch \<noteq> [] \<and> (length batch \<ge> BATCH_SIZE \<or> elapsed \<ge> FLUSH_INTERVAL_MS)"

text \<open>Lines 198-222. \<open>sink_ok\<close> is whether \<^verbatim>\<open>PQresultStatus\<close> gives
  \<^verbatim>\<open>PGRES_COMMAND_OK\<close> for the statement. The statement lists one row per item of
  the batch, from index 0 upwards; the text of a row is not modelled.\<close>

definition flush :: "int \<Rightarrow> bool \<Rightarrow> state \<Rightarrow> state" where
  "flush now sink_ok s =
     (let s1 = s\<lparr>sink_log := sink_log s @ [\<lparr>rows = local_batch s, command_ok = sink_ok\<rparr>]\<rparr>;
          s2 = (if sink_ok
                then s1\<lparr>total_written := total_written s1 + of_nat (length (local_batch s1))\<rparr>
                else s1\<lparr>printed := printed s1 @ [BatchInsertFailed]\<rparr>)
      in s2\<lparr>local_batch := [], last_flush := now\<rparr>)"

text \<open>One iteration of the \<^verbatim>\<open>while (run)\<close> loop of \<^verbatim>\<open>batch_writer\<close>; \<open>now\<close> is the
  steady-clock reading of line 191. Without a flush the thread only sleeps.\<close>

definition writer_iteration :: "int \<Rightarrow> bool \<Rightarrow> state \<Rightarrow> state" where
  "writer_iteration now sink_ok s =
     (let (queue, batch) = drain_queue (batch_queue s) (local_batch s);
          s1 = s\<lparr>batch_queue := queue, local_batch := batch\<rparr>;
          elapsed = elapsed_ms now (last_flush s1)
      in if should_flush (local_batch s1) elapsed then flush now sink_ok s1 else s1)"

text \<open>Lines 229-232: what \<^verbatim>\<open>batch_writer\<close> does once it has seen \<^verbatim>\<open>run == 0\<close>.\<close>

definition writer_exit :: "state \<Rightarrow> state" where
  "writer_exit s =
     (let s1 = (if local_batch s \<noteq> []
                then s\<lparr>printed := printed s @ [FlushingRemaining (length (local_batch s))]\<rparr>
                else s)
      in s1\<lparr>printed := printed s1 @ [TotalWritten (total_written s1)]\<rparr>)"

text \<open>Lines 393-400: what \<^verbatim>\<open>main\<close> does with the cache pipeline after its loop.\<close>

definition dispatcher_exit :: "state \<Rightarrow> state" where
  "dispatcher_exit s =
     (if redis_pipeline_count s > 0
      then s\<lparr>redis_get_reply_calls :=
                reply_loop 0 (redis_pipeline_count s) (redis_get_reply_calls s)\<rparr>
      else s)"

section \<open>The threads together\<close>

text \<open>
  The queue is only touched with the mutex held, once per iteration of either loop, and
  everything else an iteration touches belongs to its own thread; so a run of the
  process is a sequence of whole iterations, in any order. An iteration happens only
  when its thread has read \<^verbatim>\<open>run\<close> as non-zero; after the last one of each thread
  comes that thread's exit code, which touches nothing the other thread reads.
\<close>

datatype event =
    Poll poll_result
  | WriterIter int bool

fun step :: "event \<Rightarrow> state \<Rightarrow> state" where
  "step (Poll r) s = dispatch r s"
| "step (WriterIter now sink_ok) s = writer_iteration now sink_ok s"

definition run_events :: "event list \<Rightarrow> state \<Rightarrow> state" where
  "run_events evs s = foldl (\<lambda>s e. step e s) s evs"

definition run_process :: "int \<Rightarrow> event list \<Rightarrow> state" where
  "run_process t0 evs = writer_exit (dispatcher_exit (run_events evs (initial_state t0)))"

text \<open>The rows the dispatcher has pushed during a run, oldest first.\<close>

fun pushed :: "event list \<Rightarrow> MessageBatch list" where
  "pushed [] = []"
| "pushed (Poll (Record arrival_timestamp (Some u)) # evs) =
     make_item u (to_latency_ms (compute_latency_ns arrival_timestamp (timestamp_ns u)))
       # pushed evs"
| "pushed (e # evs) = pushed evs"

section \<open>Stats reporter\<close>

datatype arith_error = DivisionByZero | SignedOverflow

text \<open>Division of two \<^verbatim>\<open>long long\<close>: undefined for a zero divisor and for
  \<^verbatim>\<open>LLONG_MIN / -1\<close>, truncating otherwise.\<close>

definition ll_div :: "llong \<Rightarrow> llong \<Rightarrow> arith_error + llong" where
  "ll_div a b =
     (if b = 0 then Inl DivisionByZero
      else if a = LLONG_MIN \<and> b = - 1 then Inl SignedOverflow
      else Inr (word_of_int (sint a sdiv sint b)))"

record report =
  processed :: llong
  queue_size :: int
  avg_latency_ms :: real
  min_latency_ms :: real
  max_latency_ms :: real

text \<open>One iteration of \<^verbatim>\<open>stats_reporter\<close> after its sleep: \<open>Inr None\<close> is the
  \<^verbatim>\<open>continue\<close>, \<open>Inr (Some r)\<close> the printed report.\<close>

definition stats_reporter_iteration :: "state \<Rightarrow> arith_error + report option" where
  "stats_reporter_iteration s =
     (let n = total_processed (stats s)
      in if n = 0 then Inr None
         else
           (let total_lat = total_latency_ns (stats s);
                min_lat = min_latency_ns (stats s);
                max_lat = max_latency_ns (stats s)
            in case ll_div total_lat n of
                 Inl e \<Rightarrow> Inl e
               | Inr q \<Rightarrow>
                   Inr (Some \<lparr>processed = n,
                              queue_size = int (length (batch_queue s)),
                              avg_latency_ms = real_of_int (sint q) / 1000000,
                              min_latency_ms = real_of_int (sint min_lat) / 1000000,
                              max_latency_ms = real_of_int (sint max_lat) / 1000000\<rparr>)))"

section \<open>The recorder under concurrent callers\<close>

text \<open>
  \<^verbatim>\<open>update_latency_stats\<close> as the sequence of its atomic operations. A call is at one
  of: the increment, the addition, the load of the minimum, the loop on the minimum
  (holding \<^verbatim>\<open>current_min\<close>), the load of the maximum, the loop on the maximum
  (holding \<^verbatim>\<open>current_max\<close>), or its end.
\<close>

datatype pc =
    AtCount
  | AtTotal
  | AtLoadMin
  | AtMinLoop llong
  | AtLoadMax
  | AtMaxLoop llong
  | Finished

text \<open>
  One atomic operation of a call with argument \<open>v\<close>. In the loops, the condition
  \<^verbatim>\<open>latency_ns < current_min\<close> is tested first; only then is
  \<^verbatim>\<open>compare_exchange_weak\<close> run: it stores \<open>v\<close> when the atomic holds the expected
  value and it does not fail spuriously, and otherwise copies the value of the atomic
  into \<^verbatim>\<open>current_min\<close>, after which the loop tests again.
\<close>

fun call_step :: "bool \<Rightarrow> llong \<Rightarrow> pc \<Rightarrow> LatencyStats \<Rightarrow> pc \<times> LatencyStats" where
  "call_step spurious v AtCount s = (AtTotal, s\<lparr>total_processed := total_processed s + 1\<rparr>)"
| "call_step spurious v AtTotal s = (AtLoadMin, s\<lparr>total_latency_ns := total_latency_ns s + v\<rparr>)"
| "call_step spurious v AtLoadMin s = (AtMinLoop (min_latency_ns s), s)"
| "call_step spurious v (AtMinLoop current_min) s =
     (if v <s current_min
      then (if min_latency_ns s = current_min \<and> \<not> spurious
            then (AtLoadMax, s\<lparr>min_latency_ns := v\<rparr>)
            else (AtMinLoop (min_latency_ns s), s))
      else (AtLoadMax, s))"
| "call_step spurious v AtLoadMax s = (AtMaxLoop (max_latency_ns s), s)"
| "call_step spurious v (AtMaxLoop current_max) s =
     (if current_max <s v
      then (if max_latency_ns s = current_max \<and> \<not> spurious
            then (Finished, s\<lparr>max_latency_ns := v\<rparr>)
            else (AtMaxLoop (max_latency_ns s), s))
      else (Finished, s))"
| "call_step spurious v Finished s = (Finished, s)"

text \<open>The atomics and the calls in progress, each with its argument. A schedule entry
  \<open>(i, spurious)\<close> lets call \<open>i\<close> do its next atomic operation.\<close>

type_synonym recorder = "LatencyStats \<times> (llong \<times> pc) list"

fun sched_step :: "nat \<times> bool \<Rightarrow> recorder \<Rightarrow> recorder" where
  "sched_step (i, spurious) (s, calls) =
     (if i < length calls
      then (case call_step spurious (fst (calls ! i)) (snd (calls ! i)) s of
              (p, s') \<Rightarrow> (s', calls[i := (fst (calls ! i), p)]))
      else (s, calls))"

definition run_schedule :: "(nat \<times> bool) list \<Rightarrow> recorder \<Rightarrow> recorder" where
  "run_schedule sched c = foldl (\<lambda>c e. sched_step e c) c sched"

definition start_calls :: "llong list \<Rightarrow> recorder" where
  "start_calls vs = (initial_stats, map (\<lambda>v. (v, AtCount)) vs)"

definition all_finished :: "recorder \<Rightarrow> bool" where
  "all_finished c = list_all (\<lambda>call. snd call = Finished) (snd c)"

section \<open>Observers and invariants\<close>

text \<open>A decoded update used in the worked runs below; \<open>t\<close> is its producer timestamp.\<close>

definition example_update :: "llong \<Rightarrow> MarketUpdate" where
  "example_update t = \<lparr>ticker = ''ACME'', price = 10, volume = 7, timestamp_ns = t\<rparr>"

text \<open>How many polled records decoded, and how many did not.\<close>

fun decoded_records :: "event list \<Rightarrow> nat" where
  "decoded_records [] = 0"
| "decoded_records (Poll (Record arrival_timestamp (Some u)) # evs) = Suc (decoded_records evs)"
| "decoded_records (e # evs) = decoded_records evs"

fun malformed_records :: "event list \<Rightarrow> nat" where
  "malformed_records [] = 0"
| "malformed_records (Poll (Record arrival_timestamp None) # evs) = Suc (malformed_records evs)"
| "malformed_records (e # evs) = malformed_records evs"

text \<open>The steady-clock reading of the latest writer iteration of a run that submitted a
  statement (the one after which the list of submissions was longer), or \<open>t\<close> when no
  iteration of the run did.\<close>

fun flush_reading :: "int \<Rightarrow> event list \<Rightarrow> state \<Rightarrow> int" where
  "flush_reading t [] s = t"
| "flush_reading t (Poll r # evs) s = flush_reading t evs (step (Poll r) s)"
| "flush_reading t (WriterIter now sink_ok # evs) s =
     flush_reading
       (if sink_log (step (WriterIter now sink_ok) s) \<noteq> sink_log s then now else t)
       evs (step (WriterIter now sink_ok) s)"

text \<open>Every row the process holds or has submitted, oldest first: the rows of the
  flush attempts, then the writer's batch, then the queue.\<close>

definition in_flight :: "state \<Rightarrow> MessageBatch list" where
  "in_flight s = concat (map rows (sink_log s)) @ local_batch s @ batch_queue s"

definition batches_ok :: "state \<Rightarrow> bool" where
  "batches_ok s \<longleftrightarrow>
     length (local_batch s) \<le> BATCH_SIZE
     \<and> list_all (\<lambda>a. 1 \<le> length (rows a) \<and> length (rows a) \<le> BATCH_SIZE) (sink_log s)"

text \<open>At the head of \<^verbatim>\<open>main\<close>'s loop: the counter is below the threshold and equals the
  number of appended commands for which no reply has been asked.\<close>

definition pipeline_ok :: "state \<Rightarrow> bool" where
  "pipeline_ok s \<longleftrightarrow>
     0 \<le> redis_pipeline_count s \<and> redis_pipeline_count s < 100
     \<and> int (length (redis_appended s)) = int (redis_get_reply_calls s) + redis_pipeline_count s"

text \<open>What a call in progress knows about the atomics: the value it holds from a load
  or a failed exchange bounds the atomic, and once it has left a loop its argument
  does.\<close>

fun call_ok :: "LatencyStats \<Rightarrow> llong \<times> pc \<Rightarrow> bool" where
  "call_ok s (v, AtMinLoop current_min) \<longleftrightarrow> min_latency_ns s \<le>s current_min"
| "call_ok s (v, AtLoadMax) \<longleftrightarrow> min_latency_ns s \<le>s v"
| "call_ok s (v, AtMaxLoop current_max) \<longleftrightarrow>
     min_latency_ns s \<le>s v \<and> current_max \<le>s max_latency_ns s"
| "call_ok s (v, Finished) \<longleftrightarrow> min_latency_ns s \<le>s v \<and> v \<le>s max_latency_ns s"
| "call_ok s (v, p) \<longleftrightarrow> True"

definition recorder_inv :: "llong list \<Rightarrow> recorder \<Rightarrow> bool" where
  "recorder_inv vs c \<longleftrightarrow>
     map fst (snd c) = vs
     \<and> (min_latency_ns (fst c) = LLONG_MAX \<or> min_latency_ns (fst c) \<in> set vs)
     \<and> (max_latency_ns (fst c) = 0 \<or> max_latency_ns (fst c) \<in> set vs)
     \<and> 0 \<le>s max_latency_ns (fst c)
     \<and> list_all (call_ok (fst c)) (snd c)"

section \<open>Basic facts\<close>

lemma sint_compute_latency_nonneg: "0 \<le> sint (compute_latency_ns a p)"
  by (simp add: compute_latency_ns_def Let_def word_sless_alt)

lemma sint_compute_latency_exact:
  assumes "- (2 ^ 63) \<le> sint a - sint p" "sint a - sint p < 2 ^ 63"
  shows "sint (compute_latency_ns a p) = max 0 (sint a - sint p)"
proof -
  have "sint (a - p) = signed_take_bit 63 (sint a - sint p)"
    by (simp add: sint_word_ariths)
  also have "\<dots> = sint a - sint p"
    using assms by (simp add: signed_take_bit_int_eq_self)
  finally show ?thesis
    by (simp add: compute_latency_ns_def Let_def word_sless_alt)
qed

lemma to_latency_ms_nonneg: "0 \<le> sint l \<Longrightarrow> 0 \<le> to_latency_ms l"
  by (simp add: to_latency_ms_def del: of_int_sint)

lemma reply_loop_eq: "reply_loop i n r = r + nat (n - i)"
proof (induction i n r rule: reply_loop.induct)
  case (1 i n reads)
  show ?case
  proof (cases "i < n")
    case True
    with 1 show ?thesis by (subst reply_loop.simps) simp
  next
    case False
    then show ?thesis by (subst reply_loop.simps) simp
  qed
qed

lemma drain_queue_eq:
  "drain_queue q b = (drop (BATCH_SIZE - length b) q, b @ take (BATCH_SIZE - length b) q)"
proof (induction q arbitrary: b)
  case Nil
  show ?case by simp
next
  case (Cons x q)
  show ?case
  proof (cases "length b < BATCH_SIZE")
    case True
    then obtain k where k: "BATCH_SIZE - length b = Suc k"
      by (metis Suc_diff_Suc)
    then have "BATCH_SIZE - length (b @ [x]) = k" by simp
    with Cons [of "b @ [x]"] True k show ?thesis by simp
  next
    case False
    then show ?thesis by simp
  qed
qed

lemma length_drained_batch:
  "length b \<le> BATCH_SIZE \<Longrightarrow> length (snd (drain_queue q b)) \<le> BATCH_SIZE"
  by (simp add: drain_queue_eq)

lemma drain_queue_append:
  "snd (drain_queue q b) @ fst (drain_queue q b) = b @ q"
  by (simp add: drain_queue_eq)

lemma elapsed_ms_ge_interval:
  "elapsed_ms now p \<ge> FLUSH_INTERVAL_MS \<longleftrightarrow> now - p \<ge> 100000000"
proof (cases "0 \<le> now - p")
  case True
  then show ?thesis
    by (simp add: elapsed_ms_def FLUSH_INTERVAL_MS_def signed_divide_int_def sgn_if) linarith
next
  case False
  then have "elapsed_ms now p \<le> 0"
    by (simp add: elapsed_ms_def signed_divide_int_def sgn_if pos_imp_zdiv_nonneg_iff)
  with False show ?thesis by (simp add: FLUSH_INTERVAL_MS_def)
qed

lemma writer_iteration_flush:
  assumes "should_flush (snd (drain_queue (batch_queue s) (local_batch s)))
             (elapsed_ms now (last_flush s))"
  shows "writer_iteration now ok s =
           flush now ok (s\<lparr>batch_queue := fst (drain_queue (batch_queue s) (local_batch s)),
                           local_batch := snd (drain_queue (batch_queue s) (local_batch s))\<rparr>)"
  using assms by (simp add: writer_iteration_def split_beta Let_def)

lemma writer_iteration_no_flush:
  assumes "\<not> should_flush (snd (drain_queue (batch_queue s) (local_batch s)))
               (elapsed_ms now (last_flush s))"
  shows "writer_iteration now ok s =
           s\<lparr>batch_queue := fst (drain_queue (batch_queue s) (local_batch s)),
             local_batch := snd (drain_queue (batch_queue s) (local_batch s))\<rparr>"
  using assms by (simp add: writer_iteration_def split_beta Let_def)

lemma writer_state_after_dispatch:
  "local_batch (dispatch r s) = local_batch s \<and> sink_log (dispatch r s) = sink_log s"
  by (cases r)
    (auto simp: process_update_def publish_def drain_replies_def Let_def split: option.splits)

lemma dispatcher_state_after_writer_iteration:
  "stats (writer_iteration now ok s) = stats s
   \<and> msg_count (writer_iteration now ok s) = msg_count s
   \<and> redis_pipeline_count (writer_iteration now ok s) = redis_pipeline_count s
   \<and> redis_appended (writer_iteration now ok s) = redis_appended s
   \<and> redis_get_reply_calls (writer_iteration now ok s) = redis_get_reply_calls s"
  by (simp add: writer_iteration_def flush_def Let_def split_beta)

lemma run_events_Cons: "run_events (e # evs) s = run_events evs (step e s)"
  by (simp add: run_events_def)

lemma run_events_append: "run_events (xs @ ys) s = run_events ys (run_events xs s)"
  by (simp add: run_events_def)

text \<open>The writer's side after \<open>n\<close> identical records and no writer iteration.\<close>

lemma state_after_records:
  "(let s' = run_events (replicate n (Poll (Record a (Some u)))) s
    in batch_queue s' = batch_queue s
         @ replicate n (make_item u (to_latency_ms (compute_latency_ns a (timestamp_ns u))))
       \<and> local_batch s' = local_batch s \<and> sink_log s' = sink_log s
       \<and> last_flush s' = last_flush s)"
proof (induction n arbitrary: s)
  case 0
  show ?case by (simp add: run_events_def)
next
  case (Suc n)
  let ?s1 = "dispatch (Record a (Some u)) s"
  have "batch_queue ?s1 = batch_queue s
          @ [make_item u (to_latency_ms (compute_latency_ns a (timestamp_ns u)))]"
    "local_batch ?s1 = local_batch s" "sink_log ?s1 = sink_log s" "last_flush ?s1 = last_flush s"
    by (simp_all add: process_update_def publish_def drain_replies_def Let_def)
  with Suc [of ?s1] show ?case
    by (simp add: run_events_Cons Let_def replicate_app_Cons_same)
qed

section \<open>Rows in flight: order and batch sizes\<close>

lemma in_flight_writer_iteration: "in_flight (writer_iteration now ok s) = in_flight s"
proof (cases "should_flush (snd (drain_queue (batch_queue s) (local_batch s)))
                (elapsed_ms now (last_flush s))")
  case True
  show ?thesis
    unfolding writer_iteration_flush [OF True]
    using drain_queue_append [of "batch_queue s" "local_batch s"]
    by (simp add: in_flight_def flush_def Let_def)
next
  case False
  show ?thesis
    unfolding writer_iteration_no_flush [OF False]
    using drain_queue_append [of "batch_queue s" "local_batch s"]
    by (simp add: in_flight_def)
qed

lemma batch_queue_dispatch:
  "batch_queue (dispatch r s) = batch_queue s @ pushed [Poll r]"
  by (cases r)
    (auto simp: process_update_def publish_def drain_replies_def Let_def split: option.splits)

lemma pushed_Cons: "pushed (e # evs) = pushed [e] @ pushed evs"
  by (cases "[e]" rule: pushed.cases) auto

lemma in_flight_step: "in_flight (step e s) = in_flight s @ pushed [e]"
proof (cases e)
  case (Poll r)
  then show ?thesis
    by (simp add: in_flight_def writer_state_after_dispatch batch_queue_dispatch)
next
  case (WriterIter now ok)
  then show ?thesis
    by (simp add: in_flight_writer_iteration)
qed

lemma in_flight_run: "in_flight (run_events evs s) = in_flight s @ pushed evs"
proof (induction evs arbitrary: s)
  case Nil
  show ?case by (simp add: run_events_def)
next
  case (Cons e evs)
  show ?case
    using Cons [of "step e s"] pushed_Cons [of e evs]
    by (simp add: in_flight_step run_events_Cons)
qed

lemma pushed_latency_nonneg: "\<forall>item \<in> set (pushed evs). 0 \<le> latency_ms item"
  by (induction evs rule: pushed.induct)
    (simp_all add: make_item_def to_latency_ms_nonneg sint_compute_latency_nonneg)

lemma batches_ok_writer_iteration:
  assumes "batches_ok s"
  shows "batches_ok (writer_iteration now ok s)"
proof (cases "should_flush (snd (drain_queue (batch_queue s) (local_batch s)))
                (elapsed_ms now (last_flush s))")
  case True
  then have ne: "snd (drain_queue (batch_queue s) (local_batch s)) \<noteq> []"
    by (simp add: should_flush_def)
  from assms have "length (snd (drain_queue (batch_queue s) (local_batch s))) \<le> BATCH_SIZE"
    by (simp add: batches_ok_def length_drained_batch)
  with ne assms show ?thesis
    unfolding writer_iteration_flush [OF True]
    by (simp add: batches_ok_def flush_def Let_def Suc_le_eq)
next
  case False
  with assms show ?thesis
    unfolding writer_iteration_no_flush [OF False]
    by (simp add: batches_ok_def length_drained_batch)
qed

lemma batches_ok_step: "batches_ok s \<Longrightarrow> batches_ok (step e s)"
proof (cases e)
  case (Poll r)
  assume "batches_ok s"
  with Poll show ?thesis
    by (simp add: batches_ok_def writer_state_after_dispatch)
next
  case (WriterIter now ok)
  assume "batches_ok s"
  with WriterIter show ?thesis
    by (simp add: batches_ok_writer_iteration)
qed

lemma batches_ok_run: "batches_ok s \<Longrightarrow> batches_ok (run_events evs s)"
  by (induction evs arbitrary: s) (simp_all add: run_events_def batches_ok_step)

section \<open>Shutdown of the batch writer\<close>

text \<open>
  C1: on shutdown the writer should make a last accumulate-and-flush pass, so that every
  row left in its batch or in the queue is part of one flush attempt. The code does not:
  after the loop it prints that it is flushing the remaining rows and returns. In the
  run below a record is drained into the batch 50 ms after the start (too early for a
  flush), a second one is queued, and the process shuts down: no statement has been
  submitted, one row is still in the batch and one in the queue.
\<close>

theorem shutdown_flushes_nothing:
  "(let s = run_process 0
              [Poll (Record 2000 (Some (example_update 1000))),
               WriterIter 50000000 True,
               Poll (Record 5000 (Some (example_update 3000)))]
    in sink_log s = []
       \<and> local_batch s = [make_item (example_update 1000) (1 / 1000)]
       \<and> batch_queue s = [make_item (example_update 3000) (2 / 1000)]
       \<and> printed s = [FlushingRemaining 1, TotalWritten 0])"
  by (simp add: run_process_def run_events_def initial_state_def initial_stats_def
      process_update_def publish_def update_latency_stats_def compute_latency_ns_def
      to_latency_ms_def writer_iteration_def should_flush_def elapsed_ms_def
      BATCH_SIZE_def FLUSH_INTERVAL_MS_def writer_exit_def dispatcher_exit_def
      example_update_def make_item_def Let_def reply_loop_eq signed_divide_int_def
      word_sless_alt LLONG_MAX_def)

section \<open>The flush trigger\<close>

text \<open>
  C2, as stated: an iteration flushes exactly when the batch has reached
  \<^verbatim>\<open>BATCH_SIZE\<close> or \<^verbatim>\<open>FLUSH_INTERVAL_MS\<close> have passed since the last flush. This fails
  on an empty batch: 100 ms after the start, with nothing queued, nothing is submitted.
\<close>

theorem flush_trigger_counterexample:
  "(let s = initial_state 0; s' = writer_iteration 100000000 True s
    in \<not> (sink_log s' \<noteq> sink_log s
            \<longleftrightarrow> length (snd (drain_queue (batch_queue s) (local_batch s))) \<ge> BATCH_SIZE
                 \<or> elapsed_ms 100000000 (last_flush s) \<ge> FLUSH_INTERVAL_MS))"
  by (simp add: Let_def initial_state_def writer_iteration_def should_flush_def
      elapsed_ms_ge_interval BATCH_SIZE_def)

text \<open>The time of the previous flush: a flush stores the clock reading of its iteration
  (line 222), and nothing else writes it.\<close>

lemma last_flush_dispatch: "last_flush (dispatch r s) = last_flush s"
  by (cases r)
    (auto simp: process_update_def publish_def drain_replies_def Let_def split: option.splits)

lemma writer_iteration_last_flush:
  "(sink_log (writer_iteration now ok s) \<noteq> sink_log s
      \<longleftrightarrow> should_flush (snd (drain_queue (batch_queue s) (local_batch s)))
            (elapsed_ms now (last_flush s)))
   \<and> last_flush (writer_iteration now ok s)
       = (if should_flush (snd (drain_queue (batch_queue s) (local_batch s)))
               (elapsed_ms now (last_flush s))
          then now else last_flush s)"
proof (cases "should_flush (snd (drain_queue (batch_queue s) (local_batch s)))
                (elapsed_ms now (last_flush s))")
  case True
  show ?thesis
    unfolding writer_iteration_flush [OF True] using True by (simp add: flush_def Let_def)
next
  case False
  show ?thesis
    unfolding writer_iteration_no_flush [OF False] using False by simp
qed

lemma last_flush_run:
  "last_flush (run_events evs s) = flush_reading (last_flush s) evs s"
proof (induction evs arbitrary: s)
  case Nil
  show ?case by (simp add: run_events_def)
next
  case (Cons e evs)
  show ?case
  proof (cases e)
    case (Poll r)
    with Cons [of "step e s"] show ?thesis
      by (simp add: run_events_Cons last_flush_dispatch)
  next
    case (WriterIter now ok)
    with Cons [of "step e s"] writer_iteration_last_flush [of now ok s] show ?thesis
      by (simp add: run_events_Cons)
  qed
qed

text \<open>
  C2, amended: an iteration submits one statement, holding the batch as it is after the
  drain, exactly when that batch is not empty and either holds at least
  \<^verbatim>\<open>BATCH_SIZE\<close> rows or at least \<^verbatim>\<open>FLUSH_INTERVAL_MS\<close> milliseconds lie between
  \<^verbatim>\<open>last_flush\<close> and the clock reading of the iteration; otherwise it submits nothing.
  An iteration that flushes sets \<^verbatim>\<open>last_flush\<close> to its clock reading, one that does
  not leaves it alone, and so does the dispatcher; hence in every state the process
  reaches, \<^verbatim>\<open>last_flush\<close> is the clock reading of the latest iteration that submitted a
  statement, or the writer's start when there was none.
\<close>

theorem flush_trigger_iff:
  "(let batch = snd (drain_queue (batch_queue s) (local_batch s));
        elapsed = elapsed_ms now (last_flush s);
        s' = writer_iteration now ok s
    in (sink_log s' = sink_log s @ [\<lparr>rows = batch, command_ok = ok\<rparr>]
        \<longleftrightarrow> batch \<noteq> [] \<and> (length batch \<ge> BATCH_SIZE \<or> elapsed \<ge> FLUSH_INTERVAL_MS))
     \<and> (sink_log s' = sink_log s
        \<longleftrightarrow> \<not> (batch \<noteq> [] \<and> (length batch \<ge> BATCH_SIZE \<or> elapsed \<ge> FLUSH_INTERVAL_MS)))
     \<and> last_flush s'
         = (if batch \<noteq> [] \<and> (length batch \<ge> BATCH_SIZE \<or> elapsed \<ge> FLUSH_INTERVAL_MS)
            then now else last_flush s))
   \<and> last_flush (dispatch r s) = last_flush s
   \<and> last_flush (run_events evs (initial_state t0)) = flush_reading t0 evs (initial_state t0)
   \<and> BATCH_SIZE = 5000 \<and> FLUSH_INTERVAL_MS = 100"
proof -
  let ?batch = "snd (drain_queue (batch_queue s) (local_batch s))"
  let ?cond = "?batch \<noteq> [] \<and> (length ?batch \<ge> BATCH_SIZE
                 \<or> elapsed_ms now (last_flush s) \<ge> FLUSH_INTERVAL_MS)"
  have run: "last_flush (run_events evs (initial_state t0)) = flush_reading t0 evs (initial_state t0)"
    using last_flush_run [of evs "initial_state t0"] by (simp add: initial_state_def)
  have thresholds: "BATCH_SIZE = 5000" "FLUSH_INTERVAL_MS = 100"
    by (simp_all add: BATCH_SIZE_def FLUSH_INTERVAL_MS_def)
  have lf: "last_flush (writer_iteration now ok s) = (if ?cond then now else last_flush s)"
    using writer_iteration_last_flush [of now ok s] by (simp add: should_flush_def)
  have log: "(sink_log (writer_iteration now ok s) = sink_log s @ [\<lparr>rows = ?batch, command_ok = ok\<rparr>]
               \<longleftrightarrow> ?cond)
             \<and> (sink_log (writer_iteration now ok s) = sink_log s \<longleftrightarrow> \<not> ?cond)"
  proof (cases "should_flush ?batch (elapsed_ms now (last_flush s))")
    case True
    from writer_iteration_flush [OF True, of ok] True show ?thesis
      by (simp add: flush_def Let_def should_flush_def)
  next
    case False
    from writer_iteration_no_flush [OF False, of ok] False show ?thesis
      by (simp add: should_flush_def)
  qed
  from log lf run thresholds last_flush_dispatch [of r s] show ?thesis
    unfolding Let_def by blast
qed

text \<open>With 4999 rows in the batch: nothing is submitted after 99.999999 ms, the batch is
  submitted after 100 ms. And after a flush at 150 ms: with a row queued, nothing is
  submitted at 249.999999 ms (although the writer started 249 ms ago), the row is
  submitted at 250 ms and the time of the last flush becomes 250 ms.\<close>

theorem flush_trigger_iff_witness:
  "(let s = (initial_state 0)\<lparr>local_batch := replicate 4999 (make_item (example_update 0) 0)\<rparr>
    in sink_log (writer_iteration 99999999 True s) = []
       \<and> sink_log (writer_iteration 100000000 True s)
           = [\<lparr>rows = replicate 4999 (make_item (example_update 0) 0), command_ok = True\<rparr>])
   \<and> (let evs = [Poll (Record 9000 (Some (example_update 4000))),
                  WriterIter 150000000 True,
                  Poll (Record 9500 (Some (example_update 2500)))];
           s = run_events evs (initial_state 0)
       in length (sink_log s) = 1 \<and> last_flush s = 150000000
          \<and> flush_reading 0 evs (initial_state 0) = 150000000
          \<and> sink_log (writer_iteration 249999999 True s) = sink_log s
          \<and> last_flush (writer_iteration 249999999 True s) = 150000000
          \<and> length (sink_log (writer_iteration 250000000 True s)) = 2
          \<and> last_flush (writer_iteration 250000000 True s) = 250000000)"
proof -
  let ?s4999 = "(initial_state 0)\<lparr>local_batch := replicate 4999 (make_item (example_update 0) 0)\<rparr>"
  let ?evs = "[Poll (Record 9000 (Some (example_update 4000))),
               WriterIter 150000000 True,
               Poll (Record 9500 (Some (example_update 2500)))]"
  let ?s = "run_events ?evs (initial_state 0)"
  let ?batch = "snd (drain_queue (batch_queue ?s) (local_batch ?s))"
  have st: "sink_log ?s = [\<lparr>rows = [make_item (example_update 4000) (5 / 1000)], command_ok = True\<rparr>]"
    "local_batch ?s = []"
    "batch_queue ?s = [make_item (example_update 2500) (7 / 1000)]"
    "last_flush ?s = 150000000"
    by (simp_all add: run_events_def initial_state_def process_update_def publish_def
        writer_iteration_def flush_def should_flush_def elapsed_ms_ge_interval BATCH_SIZE_def
        compute_latency_ns_def to_latency_ms_def example_update_def word_sless_alt Let_def)
  have batch: "?batch = [make_item (example_update 2500) (7 / 1000)]"
    unfolding st by (simp add: drain_queue_eq) (simp add: BATCH_SIZE_def)
  have late: "?batch \<noteq> [] \<and> (BATCH_SIZE \<le> length ?batch
                \<or> FLUSH_INTERVAL_MS \<le> elapsed_ms 250000000 (last_flush ?s))"
    unfolding batch st by (simp add: elapsed_ms_ge_interval BATCH_SIZE_def)
  have early: "\<not> (?batch \<noteq> [] \<and> (BATCH_SIZE \<le> length ?batch
                \<or> FLUSH_INTERVAL_MS \<le> elapsed_ms 249999999 (last_flush ?s)))"
    unfolding batch st by (simp add: elapsed_ms_ge_interval BATCH_SIZE_def)
  from flush_trigger_iff [of ?s4999 99999999 True IdlePoll "[]" 0]
    flush_trigger_iff [of ?s4999 100000000 True IdlePoll "[]" 0]
  have a: "sink_log (writer_iteration 99999999 True ?s4999) = []
       \<and> sink_log (writer_iteration 100000000 True ?s4999)
           = [\<lparr>rows = replicate 4999 (make_item (example_update 0) 0), command_ok = True\<rparr>]"
    by (simp add: Let_def initial_state_def elapsed_ms_ge_interval)
  from flush_trigger_iff [of ?s 250000000 True IdlePoll ?evs 0, unfolded Let_def] late
  have b1: "sink_log (writer_iteration 250000000 True ?s)
              = sink_log ?s @ [\<lparr>rows = ?batch, command_ok = True\<rparr>]"
    and b2: "last_flush (writer_iteration 250000000 True ?s) = 250000000"
    and b3: "last_flush ?s = flush_reading 0 ?evs (initial_state 0)"
    by (simp_all only: if_True simp_thms)
  from flush_trigger_iff [of ?s 249999999 True IdlePoll ?evs 0, unfolded Let_def] early
  have c1: "sink_log (writer_iteration 249999999 True ?s) = sink_log ?s"
    and c2: "last_flush (writer_iteration 249999999 True ?s) = last_flush ?s"
    by (simp_all only: if_False simp_thms)
  have "length (sink_log ?s) = 1" by (simp add: st)
  moreover have "length (sink_log (writer_iteration 250000000 True ?s)) = 2"
    unfolding b1 by (simp add: st)
  moreover note a b2 b3 [symmetric] c1 c2 st(4)
  ultimately show ?thesis
    unfolding Let_def by (simp only: simp_thms)
qed

section \<open>A failed flush\<close>

text \<open>
  C8: when an iteration flushes, whatever the sink answers, the statement is submitted
  once, the batch is empty afterwards and the queue holds exactly what the drain left
  in it (nothing is put back); when the sink rejects the statement, the failure is
  printed, the written-rows total stays as it was, and the loop goes on from the
  resulting state like after any other iteration.
\<close>

theorem failed_flush_discards_batch:
  assumes "should_flush (snd (drain_queue (batch_queue s) (local_batch s)))
             (elapsed_ms now (last_flush s))"
  shows "(let batch = snd (drain_queue (batch_queue s) (local_batch s));
              s' = writer_iteration now ok s
          in sink_log s' = sink_log s @ [\<lparr>rows = batch, command_ok = ok\<rparr>]
             \<and> local_batch s' = []
             \<and> batch_queue s' = fst (drain_queue (batch_queue s) (local_batch s))
             \<and> (\<not> ok \<longrightarrow> printed s' = printed s @ [BatchInsertFailed]
                        \<and> total_written s' = total_written s))"
  using writer_iteration_flush [OF assms, of ok]
  by (simp add: Let_def flush_def)

theorem failed_flush_discards_batch_witness:
  "(let s = (initial_state 0)\<lparr>batch_queue := [make_item (example_update 0) 0]\<rparr>;
        s' = writer_iteration 100000000 False s
    in should_flush (snd (drain_queue (batch_queue s) (local_batch s)))
         (elapsed_ms 100000000 (last_flush s))
       \<and> sink_log s' = [\<lparr>rows = [make_item (example_update 0) 0], command_ok = False\<rparr>]
       \<and> local_batch s' = [] \<and> batch_queue s' = []
       \<and> printed s' = [BatchInsertFailed] \<and> total_written s' = 0)"
proof -
  let ?s = "(initial_state 0)\<lparr>batch_queue := [make_item (example_update 0) 0]\<rparr>"
  have h: "should_flush (snd (drain_queue (batch_queue ?s) (local_batch ?s)))
             (elapsed_ms 100000000 (last_flush ?s))"
    by (simp add: initial_state_def should_flush_def elapsed_ms_ge_interval BATCH_SIZE_def)
  from failed_flush_discards_batch [OF h, of False] h show ?thesis
    by (simp add: Let_def initial_state_def BATCH_SIZE_def)
qed

section \<open>Batch size\<close>

text \<open>
  C10: in every state the process reaches, the writer's batch holds at most
  \<^verbatim>\<open>BATCH_SIZE\<close> = 5000 rows, and every INSERT that has been submitted lists at least
  one row and at most 5000; the drain takes nothing from the queue once the batch holds
  5000 rows.
\<close>

theorem batch_size_bounded:
  "(let s = run_events evs (initial_state t0)
    in length (local_batch s) \<le> BATCH_SIZE
       \<and> (\<forall>a \<in> set (sink_log s). 1 \<le> length (rows a) \<and> length (rows a) \<le> BATCH_SIZE))
   \<and> (BATCH_SIZE \<le> length b \<longrightarrow> drain_queue q b = (q, b))
   \<and> BATCH_SIZE = 5000"
proof -
  have "batches_ok (initial_state t0)"
    by (simp add: batches_ok_def initial_state_def)
  then have "batches_ok (run_events evs (initial_state t0))"
    by (rule batches_ok_run)
  then show ?thesis
    by (simp add: batches_ok_def Let_def list_all_iff drain_queue_eq) (simp add: BATCH_SIZE_def)
qed

text \<open>With 5001 rows queued, one iteration submits a statement of exactly 5000 rows and
  leaves one row in the queue.\<close>

theorem batch_size_bounded_witness:
  "(let item = make_item (example_update 0) 0;
        s = run_events (replicate 5001 (Poll (Record 0 (Some (example_update 0))))
                          @ [WriterIter 0 True]) (initial_state 0)
    in sink_log s = [\<lparr>rows = replicate 5000 item, command_ok = True\<rparr>]
       \<and> local_batch s = [] \<and> batch_queue s = [item]
       \<and> (\<forall>a \<in> set (sink_log s). 1 \<le> length (rows a) \<and> length (rows a) \<le> BATCH_SIZE)
       \<and> BATCH_SIZE \<le> length (replicate 5000 item)
       \<and> drain_queue [item] (replicate 5000 item) = ([item], replicate 5000 item))"
proof -
  let ?evs = "replicate 5001 (Poll (Record 0 (Some (example_update 0))))"
  let ?s1 = "run_events ?evs (initial_state 0)"
  let ?item = "make_item (example_update 0) 0"
  have item: "make_item (example_update 0)
                (to_latency_ms (compute_latency_ns 0 (timestamp_ns (example_update 0))))
              = ?item"
    by (simp add: example_update_def compute_latency_ns_def to_latency_ms_def)
  have s1: "batch_queue ?s1 = replicate 5001 ?item" "local_batch ?s1 = []" "sink_log ?s1 = []"
    using state_after_records [of 5001 0 "example_update 0" "initial_state 0"]
    by (simp_all add: Let_def item initial_state_def)
  have dq: "drain_queue (batch_queue ?s1) (local_batch ?s1) = ([?item], replicate 5000 ?item)"
    unfolding s1 drain_queue_eq by (simp add: BATCH_SIZE_def)
  have sf: "should_flush (snd (drain_queue (batch_queue ?s1) (local_batch ?s1)))
              (elapsed_ms 0 (last_flush ?s1))"
    unfolding dq by (simp add: should_flush_def BATCH_SIZE_def)
  have "run_events (?evs @ [WriterIter 0 True]) (initial_state 0) = writer_iteration 0 True ?s1"
    by (simp add: run_events_append) (simp add: run_events_def)
  then have final: "run_events (?evs @ [WriterIter 0 True]) (initial_state 0)
      = flush 0 True (?s1\<lparr>batch_queue := [?item], local_batch := replicate 5000 ?item\<rparr>)"
    unfolding writer_iteration_flush [OF sf] dq by simp
  have full: "BATCH_SIZE \<le> length (replicate 5000 ?item)"
    by (simp add: BATCH_SIZE_def)
  from batch_size_bounded [of "?evs @ [WriterIter 0 True]" 0 "replicate 5000 ?item" "[?item]"] full
  show ?thesis
    unfolding Let_def final
    by (simp add: flush_def s1 Let_def)
qed

section \<open>First in, first out\<close>

text \<open>
  C6: whatever the order in which the dispatcher's iterations and the writer's
  iterations follow one another, the rows of the submitted statements (statement after
  statement, each in the order it lists its rows), then the rows of the writer's batch,
  then the rows of the queue are exactly the rows the dispatcher has pushed, in the
  order it pushed them. So rows leave the queue in insertion order and each statement
  lists a contiguous run of them in that order.
\<close>

theorem queue_fifo:
  "(let s = run_events evs (initial_state t0)
    in concat (map rows (sink_log s)) @ local_batch s @ batch_queue s = pushed evs)"
  using in_flight_run [of evs "initial_state t0"]
  by (simp add: in_flight_def Let_def initial_state_def)

theorem queue_fifo_witness:
  "(let evs = [Poll (Record 9000 (Some (example_update 4000))),
               Poll (Record 9500 (Some (example_update 2500))),
               WriterIter 200000000 True,
               Poll (Record 9900 (Some (example_update 9900)))];
        s = run_events evs (initial_state 0)
    in sink_log s = [\<lparr>rows = [make_item (example_update 4000) (5 / 1000),
                                make_item (example_update 2500) (7 / 1000)],
                        command_ok = True\<rparr>]
       \<and> local_batch s = []
       \<and> batch_queue s = [make_item (example_update 9900) 0]
       \<and> concat (map rows (sink_log s)) @ local_batch s @ batch_queue s = pushed evs)"
  using queue_fifo [of "[Poll (Record 9000 (Some (example_update 4000))),
               Poll (Record 9500 (Some (example_update 2500))),
               WriterIter 200000000 True,
               Poll (Record 9900 (Some (example_update 9900)))]" 0]
  by (simp add: Let_def run_events_def initial_state_def process_update_def publish_def
      writer_iteration_def flush_def should_flush_def elapsed_ms_ge_interval BATCH_SIZE_def
      compute_latency_ns_def to_latency_ms_def example_update_def word_sless_alt)

section \<open>Latency of a decoded record\<close>

text \<open>
  C5, as stated: the computed latency is the larger of 0 and arrival minus producer
  timestamp, for every decoded record. The field \<^verbatim>\<open>timestamp_ns\<close> can hold any 64-bit
  value; with the least one and an arrival of 1790000000000000000 ns the difference,
  11013372036854775808, is not a \<^verbatim>\<open>long long\<close>: the subtraction wraps to a negative
  value, and the latency that is recorded and queued is 0.
\<close>

theorem latency_overflow_counterexample:
  "(let a = 1790000000000000000 :: llong; u = example_update LLONG_MIN;
        s' = dispatch (Record a (Some u)) (initial_state 0)
    in sint (compute_latency_ns a (timestamp_ns u)) = 0
       \<and> max 0 (sint a - sint (timestamp_ns u)) = 11013372036854775808
       \<and> batch_queue s' = [make_item u 0]
       \<and> sint (compute_latency_ns a (timestamp_ns u)) \<noteq> max 0 (sint a - sint (timestamp_ns u)))"
  by (simp add: Let_def example_update_def LLONG_MIN_def compute_latency_ns_def word_sless_alt
      initial_state_def process_update_def publish_def to_latency_ms_def make_item_def)

text \<open>
  C5, amended: for a record that decodes, the latency the dispatcher computes is never
  negative, and it is the larger of 0 and arrival minus producer timestamp whenever
  that difference is a \<^verbatim>\<open>long long\<close> (so also when the producer's clock is ahead);
  this value is what the recorder is fed, and the row pushed on the queue carries it in
  milliseconds. Hence every row the process holds or has submitted has a latency of at
  least zero.
\<close>

theorem latency_clamped:
  "(let l = compute_latency_ns a (timestamp_ns u);
        s' = dispatch (Record a (Some u)) s
    in 0 \<le> sint l
       \<and> (- (2 ^ 63) \<le> sint a - sint (timestamp_ns u) \<and> sint a - sint (timestamp_ns u) < 2 ^ 63
            \<longrightarrow> sint l = max 0 (sint a - sint (timestamp_ns u)))
       \<and> stats s' = update_latency_stats l (stats s)
       \<and> batch_queue s' = batch_queue s @ [make_item u (to_latency_ms l)]
       \<and> 0 \<le> latency_ms (make_item u (to_latency_ms l)))
   \<and> (let s = run_events evs (initial_state t0)
      in \<forall>item \<in> set (concat (map rows (sink_log s)) @ local_batch s @ batch_queue s).
           0 \<le> latency_ms item)"
proof -
  have "in_flight (run_events evs (initial_state t0)) = pushed evs"
    using in_flight_run [of evs "initial_state t0"]
    by (simp add: in_flight_def initial_state_def)
  then have "\<forall>item \<in> set (in_flight (run_events evs (initial_state t0))). 0 \<le> latency_ms item"
    using pushed_latency_nonneg [of evs] by simp
  then show ?thesis
    unfolding in_flight_def
    by (simp add: Let_def sint_compute_latency_nonneg sint_compute_latency_exact
        process_update_def publish_def drain_replies_def make_item_def to_latency_ms_nonneg)
qed

text \<open>A producer timestamp 2000 ns ahead of the arrival: the latency is 0.\<close>

theorem latency_clamped_witness:
  "- (2 ^ 63) \<le> sint (1000 :: llong) - sint (3000 :: llong)
   \<and> sint (1000 :: llong) - sint (3000 :: llong) < 2 ^ 63
   \<and> sint (compute_latency_ns 1000 (timestamp_ns (example_update 3000))) = 0
   \<and> batch_queue (dispatch (Record 1000 (Some (example_update 3000))) (initial_state 0))
       = [make_item (example_update 3000) 0]
   \<and> 0 \<le> latency_ms (make_item (example_update 3000) 0)"
  using latency_clamped [of 1000 "example_update 3000" "initial_state 0" "[]" 0]
  by (simp add: Let_def example_update_def initial_state_def compute_latency_ns_def
      to_latency_ms_def word_sless_alt)

section \<open>Records that do not decode\<close>

lemma total_processed_update:
  "total_processed (update_latency_stats l st) = total_processed st + 1"
  by (simp add: update_latency_stats_def Let_def)

lemma counters_step:
  "total_processed (stats (step e s)) = total_processed (stats s) + of_nat (decoded_records [e])
   \<and> msg_count (step e s) = msg_count s + of_nat (decoded_records [e] + malformed_records [e])"
proof (cases e)
  case (Poll r)
  then show ?thesis
    by (cases r)
      (auto simp: process_update_def publish_def drain_replies_def Let_def total_processed_update
        split: option.splits)
next
  case (WriterIter now ok)
  then show ?thesis by (simp add: dispatcher_state_after_writer_iteration)
qed

lemma decoded_records_Cons: "decoded_records (e # evs) = decoded_records [e] + decoded_records evs"
  by (cases "[e]" rule: decoded_records.cases) auto

lemma malformed_records_Cons:
  "malformed_records (e # evs) = malformed_records [e] + malformed_records evs"
  by (cases "[e]" rule: malformed_records.cases) auto

lemma counters_run:
  "total_processed (stats (run_events evs s)) = total_processed (stats s) + of_nat (decoded_records evs)
   \<and> msg_count (run_events evs s)
       = msg_count s + of_nat (decoded_records evs + malformed_records evs)"
proof (induction evs arbitrary: s)
  case Nil
  show ?case by (simp add: run_events_def)
next
  case (Cons e evs)
  show ?case
    using Cons [of "step e s"] counters_step [of e s]
      decoded_records_Cons [of e evs] malformed_records_Cons [of e evs]
    by (simp add: run_events_Cons)
qed

text \<open>
  C3, as stated: a record that does not decode increments a parse-error counter of its
  own, so that after N decoded and M malformed records that counter is M. The process
  has no such counter: a run with a malformed record between two decoded ones ends in
  the state of the run without it, except for \<^verbatim>\<open>msg_count\<close>, which counts every
  record and is 3 instead of 2.
\<close>

theorem parse_error_counter_counterexample:
  "(let good1 = Poll (Record 9000 (Some (example_update 4000)));
        good2 = Poll (Record 9500 (Some (example_update 2500)));
        bad = Poll (Record 9200 None)
    in run_events [good1, bad, good2] (initial_state 0)
         = (run_events [good1, good2] (initial_state 0))\<lparr>msg_count := 3\<rparr>
       \<and> msg_count (run_events [good1, good2] (initial_state 0)) = 2)"
  by (simp add: Let_def run_events_def initial_state_def process_update_def publish_def)

text \<open>
  C3, amended: a record that does not decode is dropped: the queue, the cache pipeline
  and the recorder (so the processed count) stay as they are, and the only thing that
  changes is \<^verbatim>\<open>msg_count\<close>, the count of all records consumed. After N decoded and M
  malformed records the processed count is N and \<^verbatim>\<open>msg_count\<close> is N + M.
\<close>

theorem malformed_record_dropped:
  "dispatch (Record a None) s = s\<lparr>msg_count := msg_count s + 1\<rparr>
   \<and> (let s' = run_events evs (initial_state t0)
      in total_processed (stats s') = of_nat (decoded_records evs)
         \<and> msg_count s' = of_nat (decoded_records evs + malformed_records evs))"
  using counters_run [of evs "initial_state t0"]
  by (simp add: Let_def initial_state_def initial_stats_def)

theorem malformed_record_dropped_witness:
  "(let evs = [Poll (Record 9000 (Some (example_update 4000))), Poll (Record 9200 None),
               Poll (Record 9500 (Some (example_update 2500)))];
        s' = run_events evs (initial_state 0)
    in decoded_records evs = 2 \<and> malformed_records evs = 1
       \<and> total_processed (stats s') = 2 \<and> msg_count s' = 3)"
  using malformed_record_dropped [of 0 "initial_state 0"
      "[Poll (Record 9000 (Some (example_update 4000))), Poll (Record 9200 None),
        Poll (Record 9500 (Some (example_update 2500)))]" 0]
  by (simp add: Let_def)

section \<open>The stats reporter\<close>

text \<open>When \<open>ll_div\<close> gives a quotient, it is the truncated quotient of the two signed
  values.\<close>

lemma abs_sdiv_eq: "\<bar>(x::int) sdiv y\<bar> = \<bar>x\<bar> div \<bar>y\<bar>"
  by (cases "x = 0"; cases "y = 0") (simp_all add: signed_divide_int_def abs_mult pos_imp_zdiv_nonneg_iff)

lemma sint_eq_LLONG_MIN: "sint (a :: llong) = - (2 ^ 63) \<longleftrightarrow> a = LLONG_MIN"
proof
  assume "sint a = - (2 ^ 63)"
  then have "sint a = sint LLONG_MIN" by (simp add: LLONG_MIN_def)
  then show "a = LLONG_MIN" by (rule signed_word_eqI)
next
  assume "a = LLONG_MIN"
  then show "sint a = - (2 ^ 63)" by (simp add: LLONG_MIN_def)
qed

lemma sint_eq_minus_one: "sint (b :: llong) = - 1 \<longleftrightarrow> b = - 1"
proof
  assume "sint b = - 1"
  then have "sint b = sint (- 1 :: llong)" by simp
  then show "b = - 1" by (rule signed_word_eqI)
next
  assume "b = - 1"
  then show "sint b = - 1" by simp
qed

lemma ll_div_quotient:
  assumes "ll_div n d = Inr q"
  shows "sint q = sint n sdiv sint d"
proof -
  from assms have d0: "d \<noteq> 0" and nov: "\<not> (n = LLONG_MIN \<and> d = - 1)"
    and q: "q = word_of_int (sint n sdiv sint d)"
    by (auto simp: ll_div_def split: if_splits)
  have sd0: "sint d \<noteq> 0" using d0 by (simp add: signed_eq_0_iff)
  have ra: "- (2 ^ 63) \<le> sint n" "sint n < 2 ^ 63"
    using sint_ge [of n] sint_lt [of n] by simp_all
  have "- (2 ^ 63) \<le> sint n sdiv sint d \<and> sint n sdiv sint d < 2 ^ 63"
  proof (cases "n = LLONG_MIN")
    case False
    then have "sint n \<noteq> - (2 ^ 63)" using sint_eq_LLONG_MIN [of n] by blast
    with ra have "\<bar>sint n\<bar> < 2 ^ 63" by linarith
    moreover have "\<bar>sint n\<bar> div \<bar>sint d\<bar> \<le> \<bar>sint n\<bar>"
    proof (cases "sint n = 0")
      case True
      then show ?thesis by simp
    next
      case False
      then show ?thesis by (intro int_div_le_self) simp
    qed
    ultimately have "\<bar>sint n sdiv sint d\<bar> < 2 ^ 63"
      by (simp add: abs_sdiv_eq)
    then show ?thesis by linarith
  next
    case True
    with nov have "sint d \<noteq> - 1" using sint_eq_minus_one [of d] by blast
    show ?thesis
    proof (cases "sint d = 1")
      case True
      with \<open>n = LLONG_MIN\<close> show ?thesis
        by (simp add: LLONG_MIN_def signed_divide_int_def)
    next
      case False
      with sd0 \<open>sint d \<noteq> - 1\<close> have "2 \<le> \<bar>sint d\<bar>" by linarith
      then have "\<bar>sint n\<bar> div \<bar>sint d\<bar> \<le> \<bar>sint n\<bar> div 2"
        by (intro zdiv_mono2) simp_all
      moreover have "\<bar>sint n\<bar> div 2 < 2 ^ 63"
        using True by (simp add: LLONG_MIN_def)
      ultimately have "\<bar>sint n sdiv sint d\<bar> < 2 ^ 63"
        by (simp add: abs_sdiv_eq)
      then show ?thesis by linarith
    qed
  qed
  then have "signed_take_bit 63 (sint n sdiv sint d) = sint n sdiv sint d"
    by (intro signed_take_bit_int_eq_self) simp_all
  then show ?thesis
    by (simp add: q sint_sbintrunc')
qed

text \<open>
  C9: an iteration of the reporter never divides by zero. With a processed count of zero
  it reports nothing; with any other count the division of the total latency by the
  count has a non-zero divisor, and the report carries that (truncated) quotient, in
  milliseconds, as the average.
\<close>

theorem reporter_never_divides_by_zero:
  "stats_reporter_iteration s \<noteq> Inl DivisionByZero
   \<and> (total_processed (stats s) = 0 \<longrightarrow> stats_reporter_iteration s = Inr None)
   \<and> (total_processed (stats s) \<noteq> 0 \<longrightarrow>
        ll_div (total_latency_ns (stats s)) (total_processed (stats s)) \<noteq> Inl DivisionByZero
        \<and> (case ll_div (total_latency_ns (stats s)) (total_processed (stats s)) of
             Inl e \<Rightarrow> stats_reporter_iteration s = Inl e
           | Inr q \<Rightarrow>
               (\<exists>r. stats_reporter_iteration s = Inr (Some r)
                     \<and> avg_latency_ms r
                         = real_of_int (sint (total_latency_ns (stats s))
                                          sdiv sint (total_processed (stats s))) / 1000000)))"
proof (cases "total_processed (stats s) = 0")
  case True
  then show ?thesis by (simp add: stats_reporter_iteration_def)
next
  case False
  show ?thesis
  proof (cases "ll_div (total_latency_ns (stats s)) (total_processed (stats s))")
    case (Inl e)
    with False show ?thesis
      by (auto simp: stats_reporter_iteration_def Let_def ll_div_def split: if_splits)
  next
    case (Inr q)
    from ll_div_quotient [OF Inr] Inr False show ?thesis
      by (simp add: stats_reporter_iteration_def Let_def del: of_int_sint)
  qed
qed

text \<open>No report at the start; with a count of 2 and a total of 3000001 ns the reported
  average is 1.5 ms.\<close>

theorem reporter_never_divides_by_zero_witness:
  "stats_reporter_iteration (initial_state 0) = Inr None
   \<and> (\<exists>r. stats_reporter_iteration
             ((initial_state 0)\<lparr>stats := \<lparr>total_processed = 2, total_latency_ns = 3000001,
                                          min_latency_ns = 1000000, max_latency_ns = 2000001\<rparr>\<rparr>)
            = Inr (Some r) \<and> avg_latency_ms r = 3 / 2)"
  using reporter_never_divides_by_zero [of "initial_state 0"]
    reporter_never_divides_by_zero
      [of "(initial_state 0)\<lparr>stats := \<lparr>total_processed = 2, total_latency_ns = 3000001,
                                       min_latency_ns = 1000000, max_latency_ns = 2000001\<rparr>\<rparr>"]
  by (simp add: initial_state_def initial_stats_def ll_div_def LLONG_MIN_def
      signed_divide_int_def del: of_int_sint)

section \<open>The cache pipeline\<close>


lemma pipeline_ok_dispatch: "pipeline_ok s \<Longrightarrow> pipeline_ok (dispatch r s)"
  by (cases r)
    (auto simp: pipeline_ok_def process_update_def publish_def drain_replies_def Let_def
      reply_loop_eq split: option.splits)

lemma pipeline_ok_step: "pipeline_ok s \<Longrightarrow> pipeline_ok (step e s)"
proof (cases e)
  case (Poll r)
  assume "pipeline_ok s"
  with Poll show ?thesis by (simp add: pipeline_ok_dispatch)
next
  case (WriterIter now ok)
  assume "pipeline_ok s"
  with WriterIter show ?thesis
    by (simp add: pipeline_ok_def dispatcher_state_after_writer_iteration)
qed

lemma pipeline_ok_run: "pipeline_ok s \<Longrightarrow> pipeline_ok (run_events evs s)"
  by (induction evs arbitrary: s) (simp_all add: run_events_def pipeline_ok_step)

lemma count_after_record:
  "redis_pipeline_count s + 1 < 100 \<Longrightarrow>
   redis_pipeline_count (dispatch (Record a (Some u)) s) = redis_pipeline_count s + 1"
  by (simp add: process_update_def publish_def Let_def)

lemma count_after_records:
  "redis_pipeline_count s + int n < 100 \<Longrightarrow>
   redis_pipeline_count (run_events (replicate n (Poll (Record a (Some u)))) s)
     = redis_pipeline_count s + int n"
proof (induction n arbitrary: s)
  case 0
  show ?case by (simp add: run_events_def)
next
  case (Suc n)
  from Suc.prems have c: "redis_pipeline_count (dispatch (Record a (Some u)) s)
      = redis_pipeline_count s + 1"
    by (intro count_after_record) simp
  with Suc.prems Suc.IH [of "dispatch (Record a (Some u)) s"] show ?case
    by (simp add: run_events_Cons)
qed

text \<open>
  C7: in every state the dispatcher reaches at the head of its loop, the pipeline counter
  lies between 0 and 99 and equals the number of appended commands for which no reply
  has been asked; appending one more command brings it to at most 100. When it is
  brought to 100, the same iteration asks for the reply of every outstanding command
  and sets the counter to 0; so does an idle poll, whatever the counter was.
\<close>

theorem pipeline_bounded:
  "(let s = run_events evs (initial_state t0)
    in 0 \<le> redis_pipeline_count s \<and> redis_pipeline_count s < 100
       \<and> int (length (redis_appended s)) - int (redis_get_reply_calls s) = redis_pipeline_count s
       \<and> redis_pipeline_count (publish u s) \<le> 100
       \<and> (redis_pipeline_count (publish u s) = 100 \<longrightarrow>
            redis_pipeline_count (dispatch (Record a (Some u)) s) = 0
            \<and> redis_get_reply_calls (dispatch (Record a (Some u)) s)
                = length (redis_appended (dispatch (Record a (Some u)) s)))
       \<and> redis_pipeline_count (dispatch IdlePoll s) = 0
       \<and> redis_get_reply_calls (dispatch IdlePoll s) = length (redis_appended (dispatch IdlePoll s)))"
proof -
  have "pipeline_ok (initial_state t0)"
    by (simp add: pipeline_ok_def initial_state_def)
  then have "pipeline_ok (run_events evs (initial_state t0))"
    by (rule pipeline_ok_run)
  then show ?thesis
    by (auto simp: pipeline_ok_def Let_def process_update_def publish_def drain_replies_def
        reply_loop_eq)
qed

text \<open>After 99 decoded records the counter is 99; the hundredth empties the pipeline.\<close>

theorem pipeline_bounded_witness:
  "(let s = run_events (replicate 99 (Poll (Record 0 (Some (example_update 0))))) (initial_state 0);
        s' = dispatch (Record 0 (Some (example_update 0))) s
    in redis_pipeline_count s = 99
       \<and> redis_pipeline_count (publish (example_update 0) s) = 100
       \<and> redis_pipeline_count s' = 0
       \<and> redis_get_reply_calls s' = length (redis_appended s'))"
proof -
  let ?s = "run_events (replicate 99 (Poll (Record 0 (Some (example_update 0))))) (initial_state 0)"
  have c: "redis_pipeline_count ?s = 99"
    using count_after_records [of "initial_state 0" 99 0 "example_update 0"]
    by (simp add: initial_state_def)
  then have h: "redis_pipeline_count (publish (example_update 0) ?s) = 100"
    by (simp add: publish_def)
  from pipeline_bounded [of "replicate 99 (Poll (Record 0 (Some (example_update 0))))" 0 "example_update 0" 0] c h
  show ?thesis by (simp add: Let_def)
qed

section \<open>The recorder: no update is lost\<close>

lemma call_step_monotone:
  assumes "call_step spurious v p s = (p', s')"
  shows "min_latency_ns s' \<le>s min_latency_ns s \<and> max_latency_ns s \<le>s max_latency_ns s'"
  using assms by (cases p) (auto split: if_splits simp: word_sle_eq word_sless_alt)

lemma call_step_values:
  assumes "call_step spurious v p s = (p', s')"
  shows "(min_latency_ns s' = min_latency_ns s \<or> min_latency_ns s' = v)
         \<and> (max_latency_ns s' = max_latency_ns s \<or> max_latency_ns s' = v)"
  using assms by (cases p) (auto split: if_splits)

lemma call_step_own:
  assumes "call_step spurious v p s = (p', s')" "call_ok s (v, p)"
  shows "call_ok s' (v, p')"
  using assms by (cases p) (auto split: if_splits simp: word_sle_eq word_sless_alt)

lemma call_ok_monotone:
  assumes "call_ok s c" "min_latency_ns s' \<le>s min_latency_ns s"
    "max_latency_ns s \<le>s max_latency_ns s'"
  shows "call_ok s' c"
proof (cases c)
  case (Pair v p)
  with assms show ?thesis
    by (cases p) (auto simp: word_sle_eq)
qed

lemma recorder_inv_sched_step:
  assumes "recorder_inv vs c"
  shows "recorder_inv vs (sched_step e c)"
proof (cases e)
  case (Pair i spurious)
  obtain s calls where c: "c = (s, calls)" by (cases c)
  show ?thesis
  proof (cases "i < length calls")
    case False
    with assms Pair c show ?thesis by simp
  next
    case True
    define v where "v = fst (calls ! i)"
    define p where "p = snd (calls ! i)"
    obtain p' s' where st: "call_step spurious v p s = (p', s')"
      by (cases "call_step spurious v p s")
    have res: "sched_step e c = (s', calls[i := (v, p')])"
      using Pair c True st by (simp add: v_def p_def)
    have mem: "(v, p) \<in> set calls"
      using True by (simp add: v_def p_def)
    from assms c have inv:
      "map fst calls = vs"
      "min_latency_ns s = LLONG_MAX \<or> min_latency_ns s \<in> set vs"
      "max_latency_ns s = 0 \<or> max_latency_ns s \<in> set vs"
      "0 \<le>s max_latency_ns s"
      "\<forall>x \<in> set calls. call_ok s x"
      by (simp_all add: recorder_inv_def list_all_iff)
    have vin: "v \<in> set vs"
      using mem inv(1) by force
    have mono: "min_latency_ns s' \<le>s min_latency_ns s" "max_latency_ns s \<le>s max_latency_ns s'"
      using call_step_monotone [OF st] by simp_all
    have vals: "min_latency_ns s' = min_latency_ns s \<or> min_latency_ns s' = v"
      "max_latency_ns s' = max_latency_ns s \<or> max_latency_ns s' = v"
      using call_step_values [OF st] by simp_all
    have own: "call_ok s' (v, p')"
      using call_step_own [OF st] inv(5) mem by blast
    have "map fst (calls[i := (v, p')]) = (map fst calls)[i := map fst calls ! i]"
      using True by (simp add: map_update v_def)
    then have 1: "map fst (calls[i := (v, p')]) = vs"
      using inv(1) by (simp only: list_update_id)
    have 2: "min_latency_ns s' = LLONG_MAX \<or> min_latency_ns s' \<in> set vs"
      using vals(1) inv(2) vin by auto
    have 3: "max_latency_ns s' = 0 \<or> max_latency_ns s' \<in> set vs"
      using vals(2) inv(3) vin by auto
    have 4: "0 \<le>s max_latency_ns s'"
      using inv(4) mono(2) by (simp add: word_sle_eq)
    have 5: "\<forall>x \<in> set (calls[i := (v, p')]). call_ok s' x"
    proof
      fix x assume "x \<in> set (calls[i := (v, p')])"
      then have "x = (v, p') \<or> x \<in> set calls"
        using set_update_subset_insert [of calls i "(v, p')"] by auto
      then show "call_ok s' x"
        using own inv(5) call_ok_monotone [OF _ mono] by blast
    qed
    show ?thesis
      unfolding res recorder_inv_def using 1 2 3 4 5 by (simp add: list_all_iff)
  qed
qed

lemma recorder_inv_run:
  "recorder_inv vs c \<Longrightarrow> recorder_inv vs (run_schedule sched c)"
  unfolding run_schedule_def
  by (induction sched arbitrary: c) (simp_all add: recorder_inv_sched_step)

lemma recorder_inv_start: "recorder_inv vs (start_calls vs)"
  by (simp add: recorder_inv_def start_calls_def initial_stats_def list_all_iff comp_def)

lemma sint_le_LLONG_MAX: "sint (x :: llong) \<le> sint LLONG_MAX"
proof -
  have "sint x < 2 ^ (LENGTH(64) - 1)" by (rule sint_lt)
  then show ?thesis by (simp add: LLONG_MAX_def)
qed

lemma finished_extrema:
  assumes "recorder_inv vs c" "all_finished c"
  shows "sint (min_latency_ns (fst c)) = Min (insert (sint LLONG_MAX) (sint ` set vs))"
    and "sint (max_latency_ns (fst c)) = Max (insert 0 (sint ` set vs))"
proof -
  obtain s calls where c: "c = (s, calls)" by (cases c)
  have all: "\<forall>v \<in> set vs. sint (min_latency_ns s) \<le> sint v \<and> sint v \<le> sint (max_latency_ns s)"
  proof
    fix v assume "v \<in> set vs"
    with assms(1) c obtain p where m: "(v, p) \<in> set calls"
      by (auto simp: recorder_inv_def)
    with assms(2) c have "p = Finished"
      by (auto simp: all_finished_def list_all_iff)
    with m assms(1) c have "call_ok s (v, Finished)"
      by (auto simp: recorder_inv_def list_all_iff)
    then show "sint (min_latency_ns s) \<le> sint v \<and> sint v \<le> sint (max_latency_ns s)"
      by (simp add: word_sle_eq)
  qed
  from assms(1) c have mn: "min_latency_ns s = LLONG_MAX \<or> min_latency_ns s \<in> set vs"
    and mx: "max_latency_ns s = 0 \<or> max_latency_ns s \<in> set vs"
    and nonneg: "0 \<le> sint (max_latency_ns s)"
    by (simp_all add: recorder_inv_def word_sle_eq)
  have "sint (min_latency_ns s) = Min (insert (sint LLONG_MAX) (sint ` set vs))"
  proof (rule Min_eqI [symmetric])
    show "finite (insert (sint LLONG_MAX) (sint ` set vs))" by simp
    show "sint (min_latency_ns s) \<in> insert (sint LLONG_MAX) (sint ` set vs)"
      using mn by auto
    fix y assume "y \<in> insert (sint LLONG_MAX) (sint ` set vs)"
    then show "sint (min_latency_ns s) \<le> y"
      using all sint_le_LLONG_MAX by auto
  qed
  then show "sint (min_latency_ns (fst c)) = Min (insert (sint LLONG_MAX) (sint ` set vs))"
    by (simp add: c)
  have "sint (max_latency_ns s) = Max (insert 0 (sint ` set vs))"
  proof (rule Max_eqI [symmetric])
    show "finite (insert 0 (sint ` set vs))" by simp
    show "sint (max_latency_ns s) \<in> insert 0 (sint ` set vs)"
      using mx by auto
    fix y assume "y \<in> insert 0 (sint ` set vs)"
    then show "y \<le> sint (max_latency_ns s)"
      using all nonneg by auto
  qed
  then show "sint (max_latency_ns (fst c)) = Max (insert 0 (sint ` set vs))"
    by (simp add: c)
qed

text \<open>A call that runs alone, with no spurious failure, takes six atomic operations and
  leaves the atomics as \<open>update_latency_stats\<close> says.\<close>

lemma single_call_runs_update:
  "run_schedule [(0, False), (0, False), (0, False), (0, False), (0, False), (0, False)]
     (s, [(v, AtCount)]) = (update_latency_stats v s, [(v, Finished)])"
  by (simp add: run_schedule_def update_latency_stats_def Let_def)

text \<open>Whatever the other calls are doing, a call can always be completed: scheduled on
  its own without spurious failures it finishes, so some schedule completes them all.\<close>

lemma run_schedule_append:
  "run_schedule (xs @ ys) c = run_schedule ys (run_schedule xs c)"
  by (simp add: run_schedule_def)

lemma call_alone_finishes:
  assumes "i < length calls" "calls ! i = (v, AtCount)"
  shows "\<exists>s'. run_schedule [(i, False), (i, False), (i, False), (i, False), (i, False), (i, False)]
                 (s, calls) = (s', calls[i := (v, Finished)])"
  using assms by (simp add: run_schedule_def)

lemma calls_can_finish:
  "\<exists>sched s'. run_schedule sched (s, finished @ map (\<lambda>v. (v, AtCount)) vs)
                = (s', finished @ map (\<lambda>v. (v, Finished)) vs)"
proof (induction vs arbitrary: s finished)
  case Nil
  have "run_schedule [] (s, finished) = (s, finished)"
    by (simp add: run_schedule_def)
  then show ?case by auto
next
  case (Cons v vs)
  let ?calls = "finished @ map (\<lambda>v. (v, AtCount)) (v # vs)"
  let ?i = "length finished"
  have "?i < length ?calls" "?calls ! ?i = (v, AtCount)"
    by simp_all
  from call_alone_finishes [OF this, of s] obtain s1 where
    one: "run_schedule [(?i, False), (?i, False), (?i, False), (?i, False), (?i, False), (?i, False)]
            (s, ?calls) = (s1, ?calls[?i := (v, Finished)])"
    by blast
  have shape: "?calls[?i := (v, Finished)]
                 = (finished @ [(v, Finished)]) @ map (\<lambda>v. (v, AtCount)) vs"
    by simp
  from Cons [of s1 "finished @ [(v, Finished)]"] obtain sched s' where
    rest: "run_schedule sched (s1, (finished @ [(v, Finished)]) @ map (\<lambda>v. (v, AtCount)) vs)
             = (s', (finished @ [(v, Finished)]) @ map (\<lambda>v. (v, Finished)) vs)"
    by blast
  have "run_schedule
          ([(?i, False), (?i, False), (?i, False), (?i, False), (?i, False), (?i, False)] @ sched)
          (s, ?calls) = (s', finished @ map (\<lambda>v. (v, Finished)) (v # vs))"
    unfolding run_schedule_append one shape rest by simp
  then show ?case by blast
qed

lemma all_calls_can_finish: "\<exists>sched. all_finished (run_schedule sched (start_calls vs))"
proof -
  from calls_can_finish [of initial_stats "[]" vs] obtain sched s' where
    "run_schedule sched (start_calls vs) = (s', map (\<lambda>v. (v, Finished)) vs)"
    by (auto simp: start_calls_def)
  then have "all_finished (run_schedule sched (start_calls vs))"
    by (simp add: all_finished_def list_all_iff)
  then show ?thesis ..
qed

text \<open>
  C4, as stated: after any sequence of calls the stored maximum is the maximum of the
  recorded values. The maximum starts at 0, so after the single call
  \<^verbatim>\<open>update_latency_stats(-5)\<close> it is still 0.
\<close>

theorem recorder_max_counterexample:
  "(let c = run_schedule [(0, False), (0, False), (0, False), (0, False), (0, False), (0, False)]
              (start_calls [- 5])
    in all_finished c \<and> max_latency_ns (fst c) = 0
       \<and> sint (max_latency_ns (fst c)) \<noteq> Max (sint ` set [- 5 :: llong]))"
  by (simp add: run_schedule_def start_calls_def initial_stats_def all_finished_def
      word_sless_alt LLONG_MAX_def)

text \<open>
  C4, amended: let any number of calls run concurrently, their atomic operations
  interleaved in any order and their weak exchanges failing spuriously at any point.
  Once all calls have completed, the stored minimum is the least of \<^verbatim>\<open>LLONG_MAX\<close> and
  the recorded values, so the minimum of the recorded values when there is one; and
  the stored maximum is the greatest of 0 and the recorded values, so the maximum of
  the recorded values as soon as one of them is not negative (none of the latencies
  the dispatcher records is).
\<close>

theorem recorder_extrema:
  assumes "all_finished (run_schedule sched (start_calls vs))"
  shows "(let s = fst (run_schedule sched (start_calls vs))
          in sint (min_latency_ns s) = Min (insert (sint LLONG_MAX) (sint ` set vs))
             \<and> sint (max_latency_ns s) = Max (insert 0 (sint ` set vs))
             \<and> (vs \<noteq> [] \<longrightarrow> sint (min_latency_ns s) = Min (sint ` set vs))
             \<and> ((\<exists>v \<in> set vs. 0 \<le> sint v) \<longrightarrow> sint (max_latency_ns s) = Max (sint ` set vs)))"
proof -
  let ?c = "run_schedule sched (start_calls vs)"
  have inv: "recorder_inv vs ?c"
    by (rule recorder_inv_run [OF recorder_inv_start])
  note ex = finished_extrema [OF inv assms]
  have a: "vs \<noteq> [] \<Longrightarrow> Min (insert (sint LLONG_MAX) (sint ` set vs)) = Min (sint ` set vs)"
  proof -
    assume ne: "vs \<noteq> []"
    then have "Min (sint ` set vs) \<in> sint ` set vs"
      by (intro Min_in) simp_all
    then obtain x :: llong where "Min (sint ` set vs) = sint x" by auto
    then have "Min (sint ` set vs) \<le> sint LLONG_MAX"
      using sint_le_LLONG_MAX [of x] by simp
    moreover have "Min (insert (sint LLONG_MAX) (sint ` set vs))
                     = min (sint LLONG_MAX) (Min (sint ` set vs))"
      using ne by (intro Min_insert) simp_all
    ultimately show ?thesis by (simp only: min_absorb2)
  qed
  have b: "\<exists>v \<in> set vs. 0 \<le> sint v \<Longrightarrow> Max (insert 0 (sint ` set vs)) = Max (sint ` set vs)"
  proof -
    assume "\<exists>v \<in> set vs. 0 \<le> sint v"
    then obtain v where v: "v \<in> set vs" "0 \<le> sint v" by blast
    then have "sint v \<le> Max (sint ` set vs)" by simp
    with v have "0 \<le> Max (sint ` set vs)" by linarith
    moreover have "Max (insert 0 (sint ` set vs)) = max 0 (Max (sint ` set vs))"
      using v by (intro Max_insert) auto
    ultimately show ?thesis by (simp only: max_absorb2)
  qed
  show ?thesis
    using ex a b by (simp add: Let_def)
qed

text \<open>Two concurrent calls, with 5 and with 3: the second wins the exchange on the
  minimum, the first fails its exchange, reloads and gives up; on the maximum the first
  fails once spuriously and once against the second's store, then succeeds.\<close>

theorem recorder_extrema_witness:
  "(let c = run_schedule
              [(0, False), (0, False), (0, False), (1, False), (1, False), (1, False),
               (1, False), (0, False), (0, False), (0, False), (0, True), (1, False),
               (1, False), (0, False), (0, False)]
              (start_calls [5, 3])
    in all_finished c \<and> sint (min_latency_ns (fst c)) = 3 \<and> sint (max_latency_ns (fst c)) = 5)"
proof -
  let ?c = "run_schedule
              [(0, False), (0, False), (0, False), (1, False), (1, False), (1, False),
               (1, False), (0, False), (0, False), (0, False), (0, True), (1, False),
               (1, False), (0, False), (0, False)]
              (start_calls [5, 3])"
  have h: "all_finished ?c"
    by (simp add: run_schedule_def start_calls_def initial_stats_def all_finished_def
        word_sless_alt LLONG_MAX_def)
  from recorder_extrema [OF h] h show ?thesis
    by (simp add: Let_def)
qed

end
